theory Spec2Isabelle
  imports
    Complex_Main
    "HOL-Library.Log_Nat"
    "HOL-Library.Char_ord"
    "HOL-Library.List_Lexorder"
    "HOL-Library.Product_Lexorder"
    "HOL-Library.Multiset"
begin

section \<open>Python values used by the status service\<close>

subsection \<open>Errors\<close>

text \<open>
  The exceptions that the modelled code can raise: \<open>OverflowError\<close> from date arithmetic
  that leaves the years 1..9999, \<open>KeyError\<close> from a dictionary lookup, and the
  \<open>HTTPException\<close> of FastAPI with its status code.
\<close>

datatype py_error = OverflowError | KeyError | HTTPException nat string

subsection \<open>Naive datetimes\<close>

text \<open>
  A \<open>datetime.datetime\<close> without time zone: the seven fields Python stores. Python only
  builds objects that satisfy \<open>valid_datetime\<close>.
\<close>

record datetime =
  year :: nat
  month :: nat
  day :: nat
  hour :: nat
  minute :: nat
  second :: nat
  microsecond :: nat

definition is_leap :: "nat \<Rightarrow> bool" where
  "is_leap y = (y mod 4 = 0 \<and> (y mod 100 \<noteq> 0 \<or> y mod 400 = 0))"

definition days_in_month :: "nat \<Rightarrow> nat \<Rightarrow> nat" where
  "days_in_month y m =
     (if m = 2 \<and> is_leap y then 29
      else [31, 28, 31, 30, 31, 30, 31, 31, 30, 31, 30, 31] ! (m - 1))"

definition days_before_year :: "nat \<Rightarrow> nat" where
  "days_before_year y = (let p = y - 1 in p * 365 + p div 4 - p div 100 + p div 400)"

definition days_before_month :: "nat \<Rightarrow> nat \<Rightarrow> nat" where
  "days_before_month y m =
     [0, 31, 59, 90, 120, 151, 181, 212, 243, 273, 304, 334] ! (m - 1)
     + (if m > 2 \<and> is_leap y then 1 else 0)"

definition valid_datetime :: "datetime \<Rightarrow> bool" where
  "valid_datetime t =
     (1 \<le> year t \<and> year t \<le> 9999 \<and> 1 \<le> month t \<and> month t \<le> 12 \<and>
      1 \<le> day t \<and> day t \<le> days_in_month (year t) (month t) \<and>
      hour t < 24 \<and> minute t < 60 \<and> second t < 60 \<and> microsecond t < 1000000)"

text \<open>\<open>toordinal\<close>: the proleptic Gregorian ordinal, 1 for 0001-01-01.\<close>

definition toordinal :: "datetime \<Rightarrow> nat" where
  "toordinal t = days_before_year (year t) + days_before_month (year t) (month t) + day t"

text \<open>\<open>weekday\<close>: Monday is 0, Sunday is 6.\<close>

definition weekday :: "datetime \<Rightarrow> nat" where
  "weekday t = (toordinal t + 6) mod 7"

text \<open>
  \<open>t - timedelta(days=k)\<close>: the date moves back \<open>k\<close> calendar days and the time of day
  stays. Leaving year 1 raises \<open>OverflowError\<close>.
\<close>

definition prev_day :: "datetime \<Rightarrow> py_error + datetime" where
  "prev_day t =
     (if day t > 1 then Inr (t\<lparr>day := day t - 1\<rparr>)
      else if month t > 1
        then Inr (t\<lparr>month := month t - 1, day := days_in_month (year t) (month t - 1)\<rparr>)
      else if year t > 1 then Inr (t\<lparr>year := year t - 1, month := 12, day := 31\<rparr>)
      else Inl OverflowError)"

fun sub_days :: "datetime \<Rightarrow> nat \<Rightarrow> py_error + datetime" where
  "sub_days t 0 = Inr t"
| "sub_days t (Suc k) = (case prev_day t of Inl e \<Rightarrow> Inl e | Inr p \<Rightarrow> sub_days p k)"

text \<open>Python compares naive datetimes field by field, most significant first.\<close>

definition dt_key :: "datetime \<Rightarrow> nat \<times> nat \<times> nat \<times> nat \<times> nat \<times> nat \<times> nat" where
  "dt_key t = (year t, month t, day t, hour t, minute t, second t, microsecond t)"

definition dt_less :: "datetime \<Rightarrow> datetime \<Rightarrow> bool" where
  "dt_less a b = (dt_key a < dt_key b)"


subsection \<open>\<open>isoformat\<close>\<close>

definition digit_char :: "nat \<Rightarrow> char" where
  "digit_char n = char_of (48 + n mod 10)"

text \<open>\<open>zpad w n\<close>: the last \<open>w\<close> decimal digits of \<open>n\<close>, as \<open>'%0wd' % n\<close> prints \<open>n < 10 ^ w\<close>.\<close>

fun zpad :: "nat \<Rightarrow> nat \<Rightarrow> string" where
  "zpad 0 n = []"
| "zpad (Suc w) n = zpad w (n div 10) @ [digit_char n]"

definition isoformat :: "datetime \<Rightarrow> string" where
  "isoformat t =
     zpad 4 (year t) @ ''-'' @ zpad 2 (month t) @ ''-'' @ zpad 2 (day t) @ ''T'' @
     zpad 2 (hour t) @ '':'' @ zpad 2 (minute t) @ '':'' @ zpad 2 (second t) @
     (if microsecond t = 0 then [] else ''.'' @ zpad 6 (microsecond t))"

subsection \<open>Floats\<close>

text \<open>
  A finite Python float is the rational number it denotes. Every arithmetic operation
  rounds its exact result to binary64, to nearest with ties to even (\<open>fl\<close>); comparisons
  are exact. No operation of the modelled code can overflow on finite arguments, and
  infinities and NaN are outside the model.
\<close>

definition pow2 :: "int \<Rightarrow> rat" where
  "pow2 e = (if 0 \<le> e then 2 ^ nat e else 1 / 2 ^ nat (- e))"

definition round_half_even :: "rat \<Rightarrow> int" where
  "round_half_even x =
     (let f = \<lfloor>x\<rfloor>; d = x - of_int f
      in if d < 1 / 2 then f else if 1 / 2 < d then f + 1 else if even f then f else f + 1)"

text \<open>\<open>float_exponent x\<close> is \<open>\<lfloor>log\<^sub>2 x\<rfloor>\<close> for a positive rational \<open>x\<close>.\<close>

definition float_exponent :: "rat \<Rightarrow> int" where
  "float_exponent x =
     (let (p, q) = quotient_of x; e = bitlen p - bitlen q
      in if pow2 e \<le> x then e else e - 1)"

definition fl :: "rat \<Rightarrow> rat" where
  "fl x =
     (if x = 0 then 0
      else let u = pow2 (max (float_exponent \<bar>x\<bar>) (- 1022) - 52)
           in of_int (round_half_even (x / u)) * u)"

text \<open>
  The builtin \<open>sum\<close> over floats. CPython adds left to right; from version 3.12 it also
  carries a compensation term (Neumaier's variant of Kahan summation) that is added at
  the end. Both are modelled, and the theorems hold for either.
\<close>

datatype sum_impl = Plain | Compensated

fun neumaier :: "rat \<Rightarrow> rat \<Rightarrow> rat list \<Rightarrow> rat" where
  "neumaier f c [] = (if c \<noteq> 0 then fl (f + c) else f)"
| "neumaier f c (x # xs) =
     (let t = fl (f + x);
          c' = (if \<bar>x\<bar> \<le> \<bar>f\<bar> then fl (c + fl (fl (f - t) + x))
                else fl (c + fl (fl (x - t) + f)))
      in neumaier t c' xs)"

fun py_sum :: "sum_impl \<Rightarrow> rat list \<Rightarrow> rat" where
  "py_sum impl [] = 0"
| "py_sum Plain (x # xs) = foldl (\<lambda>s y. fl (s + y)) x xs"
| "py_sum Compensated (x # xs) = neumaier x 0 xs"

section \<open>Data model\<close>

text \<open>
  \<open>MonitorRecord\<close> of \<open>api/models.py\<close>: one row of \<open>monitor_records\<close>. The columns
  \<open>status_code\<close> and \<open>response_time\<close> are nullable; \<open>is_up\<close> and \<open>timestamp\<close> always hold
  a value, as the specification's check record has it.
\<close>

record monitor_record =
  rec_id :: int
  monitor_name :: string
  timestamp :: datetime
  status_code :: "int option"
  is_up :: bool
  response_time :: "rat option"

text \<open>
  \<open>app_config\<close>: the two keys that are read with \<open>dict.get\<close>; \<open>None\<close> stands for an
  absent key.
\<close>

record app_config =
  degraded_threshold :: "rat option"
  degraded_percentage_threshold :: "rat option"

text \<open>The dictionary emitted for one record when \<open>interval == "all"\<close>.\<close>

record raw_node =
  n_timestamp :: string
  n_is_up :: bool
  n_response_time :: "rat option"
  n_status_code :: "int option"
  n_count :: nat
  n_avg_response_time :: "rat option"
  n_degraded_count :: nat
  n_down_count :: nat

text \<open>The dictionary emitted for one group of records otherwise.\<close>

record bucket =
  b_timestamp :: string
  b_is_up :: bool
  b_status :: string
  b_response_time :: "rat option"
  b_count :: nat
  b_avg_response_time :: "rat option"
  b_degraded_count :: nat
  b_down_count :: nat
  b_issue_percentage :: rat

datatype heartbeat = Raw raw_node | Bucket bucket

text \<open>One value of the dictionary \<open>grouped\<close>.\<close>

record group =
  g_timestamp :: string
  g_records :: "monitor_record list"
  g_start_time :: datetime

section \<open>\<open>aggregate_heartbeat_data\<close> (\<open>api/utils.py\<close>)\<close>

definition get_degraded_threshold :: "app_config \<Rightarrow> rat" where
  "get_degraded_threshold cfg =
     fl ((case degraded_threshold cfg of None \<Rightarrow> 200 | Some v \<Rightarrow> v) / 1000)"

definition get_degraded_percentage_threshold :: "app_config \<Rightarrow> rat" where
  "get_degraded_percentage_threshold cfg =
     (case degraded_percentage_threshold cfg of None \<Rightarrow> 10 | Some v \<Rightarrow> v)"

definition is_degraded :: "rat \<Rightarrow> monitor_record \<Rightarrow> bool" where
  "is_degraded thr r =
     (is_up r \<and> (case response_time r of None \<Rightarrow> False | Some t \<Rightarrow> thr < t))"

definition raw_node_of :: "rat \<Rightarrow> monitor_record \<Rightarrow> raw_node" where
  "raw_node_of thr r =
     \<lparr> n_timestamp = isoformat (timestamp r),
       n_is_up = is_up r,
       n_response_time = response_time r,
       n_status_code = status_code r,
       n_count = 1,
       n_avg_response_time = response_time r,
       n_degraded_count = (if is_degraded thr r then 1 else 0),
       n_down_count = (if is_up r then 0 else 1) \<rparr>"

definition bucket_start :: "string \<Rightarrow> datetime \<Rightarrow> py_error + datetime" where
  "bucket_start interval t =
     (if interval = ''hour'' then Inr (t\<lparr>minute := 0, second := 0, microsecond := 0\<rparr>)
      else if interval = ''day''
        then Inr (t\<lparr>hour := 0, minute := 0, second := 0, microsecond := 0\<rparr>)
      else if interval = ''week''
        then (case sub_days t (weekday t) of
                Inl e \<Rightarrow> Inl e
              | Inr s \<Rightarrow> Inr (s\<lparr>hour := 0, minute := 0, second := 0, microsecond := 0\<rparr>))
      else Inr t)"

text \<open>
  One pass of the grouping loop: \<open>grouped\<close> is the dictionary as the list of its items in
  insertion order.
\<close>

definition add_record ::
  "(string \<times> group) list \<Rightarrow> string \<Rightarrow> datetime \<Rightarrow> monitor_record \<Rightarrow> (string \<times> group) list" where
  "add_record grouped key start r =
     (let grouped' =
            (if key \<notin> fst ` set grouped
             then grouped @ [(key, \<lparr> g_timestamp = key, g_records = [], g_start_time = start \<rparr>)]
             else grouped)
      in map (\<lambda>(k, g). if k = key then (k, g\<lparr>g_records := g_records g @ [r]\<rparr>) else (k, g))
           grouped')"

fun group_records ::
  "string \<Rightarrow> (string \<times> group) list \<Rightarrow> monitor_record list \<Rightarrow> py_error + (string \<times> group) list"
  where
  "group_records interval grouped [] = Inr grouped"
| "group_records interval grouped (r # rs) =
     (case bucket_start interval (timestamp r) of
        Inl e \<Rightarrow> Inl e
      | Inr start \<Rightarrow> group_records interval (add_record grouped (isoformat start) start r) rs)"

definition up_count :: "monitor_record list \<Rightarrow> nat" where
  "up_count recs = length (filter is_up recs)"

definition summarise :: "sum_impl \<Rightarrow> app_config \<Rightarrow> string \<Rightarrow> monitor_record list \<Rightarrow> bucket" where
  "summarise impl cfg key recs =
     (let down_count = length recs - up_count recs;
          response_times = List.map_filter response_time recs;
          avg_response_time =
            (if response_times \<noteq> []
             then Some (fl (py_sum impl response_times / of_nat (length response_times)))
             else None);
          degraded_count = length (filter (is_degraded (get_degraded_threshold cfg)) recs);
          total_issues = down_count + degraded_count;
          issue_percentage =
            (if recs \<noteq> [] then fl (fl (of_nat total_issues / of_nat (length recs)) * 100)
             else 0);
          status =
            (if down_count > 0 then ''down''
             else if get_degraded_percentage_threshold cfg < issue_percentage then ''degraded''
             else ''up'')
      in \<lparr> b_timestamp = key,
           b_is_up = (status = ''up''),
           b_status = status,
           b_response_time = avg_response_time,
           b_count = length recs,
           b_avg_response_time = avg_response_time,
           b_degraded_count = degraded_count,
           b_down_count = down_count,
           b_issue_percentage = issue_percentage \<rparr>)"

text \<open>The output loop over \<open>sorted(grouped.keys())\<close>.\<close>

fun emit ::
  "sum_impl \<Rightarrow> app_config \<Rightarrow> (string \<times> group) list \<Rightarrow> string list \<Rightarrow> py_error + heartbeat list"
  where
  "emit impl cfg grouped [] = Inr []"
| "emit impl cfg grouped (key # keys) =
     (case map_of grouped key of
        None \<Rightarrow> Inl KeyError
      | Some g \<Rightarrow>
          (case emit impl cfg grouped keys of
             Inl e \<Rightarrow> Inl e
           | Inr out \<Rightarrow> Inr (Bucket (summarise impl cfg key (g_records g)) # out)))"

definition aggregate_heartbeat_data ::
  "sum_impl \<Rightarrow> monitor_record list \<Rightarrow> string \<Rightarrow> app_config \<Rightarrow> py_error + heartbeat list" where
  "aggregate_heartbeat_data impl records interval cfg =
     (if records = [] then Inr []
      else if interval = ''all''
        then Inr (map (\<lambda>r. Raw (raw_node_of (get_degraded_threshold cfg) r)) records)
      else (case group_records interval [] records of
              Inl e \<Rightarrow> Inl e
            | Inr grouped \<Rightarrow> emit impl cfg grouped (sort (map fst grouped))))"

subsection \<open>Vocabulary for the properties\<close>

text \<open>
  The start and the dictionary key that the grouping loop computes for a record, the
  records that share a key, and the keys in the order of the output loop.
\<close>

definition start_of :: "string \<Rightarrow> datetime \<Rightarrow> datetime" where
  "start_of interval t = (case bucket_start interval t of Inl e \<Rightarrow> t | Inr s \<Rightarrow> s)"

definition key_of :: "string \<Rightarrow> monitor_record \<Rightarrow> string" where
  "key_of interval r = isoformat (start_of interval (timestamp r))"

definition recs_of :: "(string \<times> group) list \<Rightarrow> string \<Rightarrow> monitor_record list" where
  "recs_of grouped k = (case map_of grouped k of None \<Rightarrow> [] | Some g \<Rightarrow> g_records g)"

definition bucket_keys :: "string \<Rightarrow> monitor_record list \<Rightarrow> string list" where
  "bucket_keys interval rs = sorted_list_of_set (key_of interval ` set rs)"

definition members :: "string \<Rightarrow> monitor_record list \<Rightarrow> string \<Rightarrow> monitor_record list" where
  "members interval rs k = filter (\<lambda>r. key_of interval r = k) rs"

definition valid_records :: "monitor_record list \<Rightarrow> bool" where
  "valid_records rs = list_all (\<lambda>r. valid_datetime (timestamp r)) rs"

definition buckets_of :: "sum_impl \<Rightarrow> app_config \<Rightarrow> string \<Rightarrow> monitor_record list \<Rightarrow> bucket list" where
  "buckets_of impl cfg interval rs =
     map (\<lambda>k. summarise impl cfg k (members interval rs k)) (bucket_keys interval rs)"

subsection \<open>Example data\<close>

definition mk_record :: "string \<Rightarrow> datetime \<Rightarrow> int option \<Rightarrow> bool \<Rightarrow> rat option \<Rightarrow> monitor_record" where
  "mk_record name t code up rt =
     \<lparr> rec_id = 0, monitor_name = name, timestamp = t, status_code = code, is_up = up,
       response_time = rt \<rparr>"

definition mk_time :: "nat \<Rightarrow> nat \<Rightarrow> nat \<Rightarrow> nat \<Rightarrow> nat \<Rightarrow> datetime" where
  "mk_time y m d h mi =
     \<lparr> year = y, month = m, day = d, hour = h, minute = mi, second = 0, microsecond = 0 \<rparr>"

definition default_config :: app_config where
  "default_config = \<lparr> degraded_threshold = None, degraded_percentage_threshold = None \<rparr>"

definition ex_records :: "monitor_record list" where
  "ex_records =
     [mk_record ''api'' (mk_time 2025 1 6 9 0) (Some 200) True (Some (1 / 8)),
      mk_record ''api'' (mk_time 2025 1 6 9 30) (Some 200) True (Some (1 / 8)),
      mk_record ''api'' (mk_time 2025 1 6 10 5) None False None]"

definition ex_slow :: "monitor_record list" where
  "ex_slow =
     [mk_record ''api'' (mk_time 2025 1 6 9 0) (Some 200) True (Some (1 / 2)),
      mk_record ''api'' (mk_time 2025 1 6 9 30) (Some 200) True (Some (1 / 2))]"

definition ex_week :: "monitor_record list" where
  "ex_week =
     [mk_record ''api'' (mk_time 2025 1 8 9 0) (Some 200) True (Some (1 / 8)),
      mk_record ''api'' (mk_time 2025 1 1 9 30) (Some 200) True (Some (1 / 8)),
      mk_record ''api'' (mk_time 2025 1 6 10 5) None False None]"

definition ex_same :: "monitor_record list" where
  "ex_same =
     [mk_record ''api'' ((mk_time 2025 1 6 9 0)\<lparr>microsecond := 5\<rparr>) (Some 200) True
        (Some (1 / 2)),
      mk_record ''api'' (mk_time 2025 1 6 9 0) (Some 200) True (Some (1 / 8)),
      mk_record ''api'' ((mk_time 2025 1 6 9 0)\<lparr>microsecond := 5\<rparr>) None False None]"

text \<open>
  Four successful checks of one hour, listed in two orders. The response times are the
  floats \<open>2.0 ** 53\<close>, \<open>1.0\<close>, \<open>2.0 ** -53\<close> and \<open>2.0 ** -53\<close>.
\<close>

definition ex_order_a :: "monitor_record list" where
  "ex_order_a =
     [mk_record ''api'' (mk_time 2025 1 6 9 0) (Some 200) True (Some (2 ^ 53)),
      mk_record ''api'' (mk_time 2025 1 6 9 0) (Some 200) True (Some 1),
      mk_record ''api'' (mk_time 2025 1 6 9 0) (Some 200) True (Some (1 / 2 ^ 53)),
      mk_record ''api'' (mk_time 2025 1 6 9 0) (Some 200) True (Some (1 / 2 ^ 53))]"

definition ex_order_b :: "monitor_record list" where
  "ex_order_b =
     [mk_record ''api'' (mk_time 2025 1 6 9 0) (Some 200) True (Some (1 / 2 ^ 53)),
      mk_record ''api'' (mk_time 2025 1 6 9 0) (Some 200) True (Some (1 / 2 ^ 53)),
      mk_record ''api'' (mk_time 2025 1 6 9 0) (Some 200) True (Some 1),
      mk_record ''api'' (mk_time 2025 1 6 9 0) (Some 200) True (Some (2 ^ 53))]"

text \<open>Two buckets that agree in every field but the value of the mean response time.\<close>

definition same_but_mean :: "bucket \<Rightarrow> bucket \<Rightarrow> bool" where
  "same_but_mean b b' =
     (b_timestamp b = b_timestamp b' \<and> b_is_up b = b_is_up b' \<and> b_status b = b_status b' \<and>
      b_count b = b_count b' \<and> b_degraded_count b = b_degraded_count b' \<and>
      b_down_count b = b_down_count b' \<and> b_issue_percentage b = b_issue_percentage b' \<and>
      (b_avg_response_time b = None) = (b_avg_response_time b' = None) \<and>
      (b_response_time b = None) = (b_response_time b' = None))"

section \<open>Status endpoints (\<open>api/status.py\<close>)\<close>
















section \<open>Calendar arithmetic\<close>

text \<open>Stepping back one calendar day lowers the ordinal by one.\<close>

lemma div_pred:
  fixes n k :: nat
  assumes "0 < n"
  shows "n div k = (n - 1) div k + (if k dvd n then 1 else 0)"
proof -
  from assms obtain m where "n = Suc m"
    by (cases n) auto
  then show ?thesis
    by (simp add: div_Suc mod_eq_0_iff_dvd)
qed

lemma days_before_year_step:
  assumes "1 < y"
  shows "days_before_year y = days_before_year (y - 1) + 365 + (if is_leap (y - 1) then 1 else 0)"
proof -
  define n where "n = y - 1"
  define a b c where "a = (n - 1) div 4" and "b = (n - 1) div 100" and "c = (n - 1) div 400"
  define m where "m = (n - 1) * 365"
  have n: "0 < n"
    using assms by (simp add: n_def)
  have le: "b \<le> a"
    unfolding a_def b_def by (rule div_le_mono2) simp_all
  have mul: "n * 365 = m + 365"
    using n by (simp add: m_def diff_mult_distrib)
  have m400: "100 dvd n" if "400 dvd n"
    using that by (rule dvd_trans[rotated]) simp
  have m100: "4 dvd n" if "100 dvd n"
    using that by (rule dvd_trans[rotated]) simp
  have leap: "is_leap n = (4 dvd n \<and> (\<not> 100 dvd n \<or> 400 dvd n))"
    by (simp add: is_leap_def mod_eq_0_iff_dvd)
  have lhs: "days_before_year y = n * 365 + n div 4 - n div 100 + n div 400"
    by (simp only: days_before_year_def Let_def n_def)
  have rhs: "days_before_year (y - 1) = m + a - b + c"
    by (simp only: days_before_year_def Let_def n_def m_def a_def b_def c_def)
  have d: "n div 4 = a + (if 4 dvd n then 1 else 0)"
    "n div 100 = b + (if 100 dvd n then 1 else 0)"
    "n div 400 = c + (if 400 dvd n then 1 else 0)"
    unfolding a_def b_def c_def by (rule div_pred[OF n])+
  have "n * 365 + n div 4 - n div 100 + n div 400 =
      m + a - b + c + 365 + (if is_leap n then 1 else 0)"
  proof (cases "4 dvd n")
    case False
    with m100 m400 have "\<not> 100 dvd n" "\<not> 400 dvd n" by blast+
    with False show ?thesis
      unfolding d leap mul using le by (simp only: if_True if_False simp_thms; linarith?)
  next
    case d4: True
    show ?thesis
    proof (cases "100 dvd n")
      case False
      with m400 have "\<not> 400 dvd n" by blast
      with False d4 show ?thesis
        unfolding d leap mul using le by (simp only: if_True if_False simp_thms; linarith?)
    next
      case d100: True
      show ?thesis
        using d4 d100 le unfolding d leap mul
        by (cases "400 dvd n"; simp only: if_True if_False simp_thms; linarith?)
    qed
  qed
  then show ?thesis
    unfolding lhs rhs n_def .
qed

lemma days_before_month_step:
  assumes "1 < m" "m \<le> 12"
  shows "days_before_month y m = days_before_month y (m - 1) + days_in_month y (m - 1)"
proof -
  from assms have "m = 2 \<or> m = 3 \<or> m = 4 \<or> m = 5 \<or> m = 6 \<or> m = 7 \<or> m = 8 \<or> m = 9 \<or> m = 10
      \<or> m = 11 \<or> m = 12"
    by arith
  then show ?thesis
    by (elim disjE) (simp_all add: days_before_month_def days_in_month_def)
qed

lemma days_in_month_pos:
  assumes "1 \<le> m" "m \<le> 12"
  shows "1 \<le> days_in_month y m"
proof -
  from assms have "m = 1 \<or> m = 2 \<or> m = 3 \<or> m = 4 \<or> m = 5 \<or> m = 6 \<or> m = 7 \<or> m = 8 \<or> m = 9 \<or> m = 10
      \<or> m = 11 \<or> m = 12"
    by arith
  then show ?thesis
    by (elim disjE) (simp_all add: days_in_month_def)
qed

lemma prev_day_ordinal:
  assumes "valid_datetime t" "prev_day t = Inr p"
  shows "valid_datetime p \<and> Suc (toordinal p) = toordinal t \<and>
    hour p = hour t \<and> minute p = minute t \<and> second p = second t \<and> microsecond p = microsecond t"
proof -
  consider "1 < day t" | "day t = 1" "1 < month t" | "day t = 1" "month t = 1" "1 < year t"
    | "day t = 1" "month t = 1" "year t = 1"
    using assms(1) unfolding valid_datetime_def by linarith
  then show ?thesis
  proof cases
    case 1
    with assms show ?thesis
      by (auto simp: prev_day_def valid_datetime_def toordinal_def)
  next
    case 2
    with assms have p: "p = t\<lparr>month := month t - 1, day := days_in_month (year t) (month t - 1)\<rparr>"
      by (simp add: prev_day_def)
    from 2 assms(1) have m: "1 \<le> month t - 1" "month t - 1 \<le> 12" "month t \<le> 12"
      by (auto simp: valid_datetime_def)
    show ?thesis
      using assms(1) 2 m days_in_month_pos[OF m(1,2), of "year t"]
        days_before_month_step[OF 2(2) m(3), of "year t"]
      by (simp add: p valid_datetime_def toordinal_def)
  next
    case 3
    with assms have p: "p = t\<lparr>year := year t - 1, month := 12, day := 31\<rparr>"
      by (simp add: prev_day_def)
    show ?thesis
      using assms(1) 3 days_before_year_step[OF 3(3)]
      by (auto simp: p valid_datetime_def toordinal_def days_before_month_def days_in_month_def)
  next
    case 4
    with assms show ?thesis
      by (simp add: prev_day_def)
  qed
qed

lemma prev_day_fails:
  assumes "valid_datetime t" "prev_day t = Inl e"
  shows "toordinal t = 1"
proof -
  from assms(2) have "\<not> 1 < day t" "\<not> 1 < month t" "\<not> 1 < year t"
    by (auto simp: prev_day_def split: if_splits)
  with assms(1) have "day t = 1" "month t = 1" "year t = 1"
    by (auto simp: valid_datetime_def)
  then show ?thesis
    by (simp add: toordinal_def days_before_year_def days_before_month_def)
qed


lemma sub_days_ordinal:
  assumes "valid_datetime t" "k < toordinal t"
  shows "\<exists>p. sub_days t k = Inr p \<and> valid_datetime p \<and> toordinal p + k = toordinal t \<and>
    hour p = hour t \<and> minute p = minute t \<and> second p = second t \<and> microsecond p = microsecond t"
  using assms
proof (induction k arbitrary: t)
  case 0
  then show ?case by simp
next
  case (Suc k)
  show ?case
  proof (cases "prev_day t")
    case (Inl e)
    with Suc.prems prev_day_fails show ?thesis by fastforce
  next
    case (Inr p)
    from prev_day_ordinal[OF Suc.prems(1) Inr] Suc.prems(2)
    have p: "valid_datetime p" "k < toordinal p" "Suc (toordinal p) = toordinal t"
      "hour p = hour t" "minute p = minute t" "second p = second t" "microsecond p = microsecond t"
      by auto
    from Suc.IH[OF p(1,2)] p Inr show ?thesis
      by auto
  qed
qed

lemma toordinal_pos: "valid_datetime t \<Longrightarrow> 1 \<le> toordinal t"
  by (simp add: valid_datetime_def toordinal_def)

lemma weekday_less: "valid_datetime t \<Longrightarrow> weekday t < toordinal t"
proof -
  assume "valid_datetime t"
  then have "1 \<le> toordinal t" by (rule toordinal_pos)
  then obtain n where n: "toordinal t = Suc n"
    by (metis Suc_le_D One_nat_def)
  have "(n + 7) mod 7 \<le> n"
    by simp
  then show ?thesis
    unfolding weekday_def n by simp
qed

section \<open>Properties of the aggregator\<close>

subsection \<open>The grouping loop and the output loop\<close>

lemma add_record_keys:
  "map fst (add_record grouped key s r) =
     (if key \<in> set (map fst grouped) then map fst grouped else map fst grouped @ [key])"
  by (auto simp: add_record_def Let_def split_def o_def)

lemma add_record_key_set:
  "fst ` set (add_record grouped key s r) = insert key (fst ` set grouped)"
  using arg_cong[OF add_record_keys, of set grouped key s r] by (auto simp: image_iff)

lemma map_of_map_upd:
  "map_of (map (\<lambda>(k, g). if k = key then (k, f g) else (k, g)) xs) k' =
     (if k' = key then map_option f (map_of xs k') else map_of xs k')"
  by (induction xs) auto

lemma add_record_recs:
  "recs_of (add_record grouped key s r) k = recs_of grouped k @ (if k = key then [r] else [])"
proof (cases "key \<in> fst ` set grouped")
  case True
  then obtain g where "map_of grouped key = Some g"
    by (metis domD dom_map_of_conv_image_fst)
  with True show ?thesis
    by (auto simp: add_record_def recs_of_def map_of_map_upd split: option.splits)
next
  case False
  then have "map_of grouped key = None"
    by (simp add: map_of_eq_None_iff)
  with False show ?thesis
    by (auto simp: add_record_def recs_of_def map_of_map_upd map_of_append split: option.splits)
qed

lemma group_records_Inr:
  "group_records interval grouped rs = Inr g' \<Longrightarrow>
     g' = foldl (\<lambda>g r. add_record g (key_of interval r) (start_of interval (timestamp r)) r)
            grouped rs"
  by (induction rs arbitrary: grouped) (auto simp: key_of_def start_of_def split: sum.splits)

lemma group_records_ok:
  "\<forall>r \<in> set rs. \<exists>s. bucket_start interval (timestamp r) = Inr s \<Longrightarrow>
     \<exists>g'. group_records interval grouped rs = Inr g'"
  by (induction rs arbitrary: grouped) (auto split: sum.splits)

lemma foldl_add_record_recs:
  "recs_of (foldl (\<lambda>g r. add_record g (kf r) (sf r) r) grouped rs) k =
     recs_of grouped k @ filter (\<lambda>r. kf r = k) rs"
  by (induction rs arbitrary: grouped) (auto simp: add_record_recs)

lemma foldl_add_record_keys:
  "fst ` set (foldl (\<lambda>g r. add_record g (kf r) (sf r) r) grouped rs) =
     fst ` set grouped \<union> kf ` set rs"
  by (induction rs arbitrary: grouped) (simp_all add: add_record_key_set)

lemma foldl_add_record_distinct:
  "distinct (map fst grouped) \<Longrightarrow>
     distinct (map fst (foldl (\<lambda>g r. add_record g (kf r) (sf r) r) grouped rs))"
  by (induction rs arbitrary: grouped) (auto simp: add_record_keys)

lemma emit_Inr:
  "set keys \<subseteq> fst ` set grouped \<Longrightarrow>
     emit impl cfg grouped keys =
       Inr (map (\<lambda>k. Bucket (summarise impl cfg k (recs_of grouped k))) keys)"
proof (induction keys)
  case Nil
  then show ?case by simp
next
  case (Cons k keys)
  then obtain g where "map_of grouped k = Some g"
    by (metis domD dom_map_of_conv_image_fst list.set_intros(1) subsetD)
  with Cons show ?case by (simp add: recs_of_def)
qed

text \<open>
  When every start can be computed, the result is one bucket per distinct key, in sorted
  key order, each summarising the records with that key in input order.
\<close>

lemma aggregate_buckets:
  assumes "interval \<noteq> ''all''"
    and "\<forall>r \<in> set rs. \<exists>s. bucket_start interval (timestamp r) = Inr s"
  shows "aggregate_heartbeat_data impl rs interval cfg =
     Inr (map (\<lambda>k. Bucket (summarise impl cfg k (members interval rs k)))
            (bucket_keys interval rs))"
proof (cases "rs = []")
  case True
  then show ?thesis by (simp add: aggregate_heartbeat_data_def bucket_keys_def)
next
  case False
  from group_records_ok[OF assms(2)] obtain g where g: "group_records interval [] rs = Inr g"
    by blast
  let ?kf = "key_of interval" and ?sf = "\<lambda>r. start_of interval (timestamp r)"
  have geq: "g = foldl (\<lambda>g r. add_record g (?kf r) (?sf r) r) [] rs"
    using group_records_Inr[OF g] .
  have keys: "set (map fst g) = ?kf ` set rs"
    unfolding geq set_map by (simp add: foldl_add_record_keys)
  have dist: "distinct (map fst g)"
    unfolding geq by (rule foldl_add_record_distinct) simp
  have srt: "sort (map fst g) = bucket_keys interval rs"
    unfolding bucket_keys_def keys[symmetric]
    using dist by (metis sorted_list_of_set_sort_remdups distinct_remdups_id)
  have nil: "recs_of [] k = []" for k
    by (simp add: recs_of_def)
  have recs: "recs_of g k = members interval rs k" for k
    unfolding geq members_def foldl_add_record_recs by (simp add: nil)
  have "emit impl cfg g (sort (map fst g)) =
      Inr (map (\<lambda>k. Bucket (summarise impl cfg k (recs_of g k))) (sort (map fst g)))"
    by (rule emit_Inr) (simp flip: set_map)
  with False assms(1) g srt recs show ?thesis
    by (simp add: aggregate_heartbeat_data_def)
qed

subsection \<open>Interval \<open>all\<close>\<close>

text \<open>
  Claim C3. With interval \<open>all\<close> the call never fails and returns one node per input
  record, as many nodes as records and in the order of the records. The node of a record
  has count 1; its \<open>degraded_count\<close> is 1 exactly when the record is up, has a response
  time, and that response time exceeds \<open>degraded_threshold / 1000\<close>, and 0 otherwise; its
  \<open>down_count\<close> is 1 exactly when the record is not up, and 0 otherwise. Every node has
  the shape \<open>Raw\<close>, which carries no status field.
\<close>

theorem all_interval_passthrough:
  "\<exists>nodes.
     aggregate_heartbeat_data impl records ''all'' cfg = Inr (map Raw nodes) \<and>
     length nodes = length records \<and>
     nodes =
       map (\<lambda>r. \<lparr> n_timestamp = isoformat (timestamp r),
                  n_is_up = is_up r,
                  n_response_time = response_time r,
                  n_status_code = status_code r,
                  n_count = 1,
                  n_avg_response_time = response_time r,
                  n_degraded_count =
                    (if is_up r \<and>
                        (\<exists>t. response_time r = Some t \<and>
                             fl ((case degraded_threshold cfg of None \<Rightarrow> 200 | Some v \<Rightarrow> v) / 1000)
                               < t)
                     then 1 else 0),
                  n_down_count = (if is_up r then 0 else 1) \<rparr>) records"
proof -
  have deg: "is_degraded (get_degraded_threshold cfg) r =
      (is_up r \<and> (\<exists>t. response_time r = Some t \<and>
         fl ((case degraded_threshold cfg of None \<Rightarrow> 200 | Some v \<Rightarrow> v) / 1000) < t))" for r
    by (simp add: is_degraded_def get_degraded_threshold_def split: option.splits)
  show ?thesis
    by (cases "records = []")
      (simp_all add: aggregate_heartbeat_data_def raw_node_of_def deg o_def)
qed

subsection \<open>Shape of the result\<close>

lemma week_start:
  assumes "valid_datetime t"
  shows "\<exists>s. bucket_start ''week'' t = Inr s \<and> valid_datetime s \<and>
    toordinal s + weekday t = toordinal t \<and>
    hour s = 0 \<and> minute s = 0 \<and> second s = 0 \<and> microsecond s = 0"
proof -
  from sub_days_ordinal[OF assms weekday_less[OF assms]]
  obtain p where p: "sub_days t (weekday t) = Inr p" "valid_datetime p"
    "toordinal p + weekday t = toordinal t"
    by blast
  let ?s = "p\<lparr>hour := 0, minute := 0, second := 0, microsecond := 0\<rparr>"
  have "bucket_start ''week'' t = Inr ?s"
    by (simp add: bucket_start_def p(1))
  moreover have "valid_datetime ?s" "toordinal ?s = toordinal p"
    using p(2) by (simp_all add: valid_datetime_def toordinal_def)
  ultimately show ?thesis
    using p(3) by simp
qed

lemma bucket_start_total:
  assumes "valid_datetime t"
  shows "\<exists>s. bucket_start interval t = Inr s"
proof (cases "interval = ''week''")
  case True
  with week_start[OF assms] show ?thesis by blast
next
  case False
  then show ?thesis by (simp add: bucket_start_def)
qed

lemma aggregate_valid:
  assumes "interval \<noteq> ''all''" "valid_records rs"
  shows "aggregate_heartbeat_data impl rs interval cfg =
     Inr (map (\<lambda>k. Bucket (summarise impl cfg k (members interval rs k)))
            (bucket_keys interval rs))"
proof (rule aggregate_buckets[OF assms(1)])
  show "\<forall>r\<in>set rs. \<exists>s. bucket_start interval (timestamp r) = Inr s"
    using assms(2) bucket_start_total by (auto simp: valid_records_def list_all_iff)
qed

lemma set_bucket_keys: "set (bucket_keys interval rs) = key_of interval ` set rs"
  by (simp add: bucket_keys_def)

lemma distinct_bucket_keys: "distinct (bucket_keys interval rs)"
  by (simp add: bucket_keys_def)

lemma sorted_bucket_keys: "sorted (bucket_keys interval rs)"
  by (simp add: bucket_keys_def)

lemma members_nonempty: "k \<in> set (bucket_keys interval rs) \<Longrightarrow> members interval rs k \<noteq> []"
  by (auto simp: set_bucket_keys members_def filter_empty_conv)

lemma sum_members:
  assumes "finite K" "f ` set rs \<subseteq> K"
  shows "(\<Sum>k\<in>K. length (filter (\<lambda>r. f r = k) rs)) = length rs"
  using assms(2)
proof (induction rs)
  case Nil
  then show ?case by simp
next
  case (Cons r rs)
  have "(\<Sum>k\<in>K. length (filter (\<lambda>x. f x = k) (r # rs))) =
      (\<Sum>k\<in>K. (if k = f r then 1 else 0) + length (filter (\<lambda>x. f x = k) rs))"
    by (rule sum.cong) auto
  also have "\<dots> = (\<Sum>k\<in>K. if k = f r then 1 else 0) + length rs"
    using Cons by (simp add: sum.distrib)
  also have "(\<Sum>k\<in>K. if k = f r then 1 else 0) = (1::nat)"
    using Cons.prems assms(1) by (simp add: sum.delta)
  finally show ?case by simp
qed

lemma sum_counts:
  "sum_list (map (\<lambda>k. length (members interval rs k)) (bucket_keys interval rs)) = length rs"
proof -
  have "sum_list (map (\<lambda>k. length (members interval rs k)) (bucket_keys interval rs)) =
      (\<Sum>k\<in>key_of interval ` set rs. length (members interval rs k))"
    using distinct_bucket_keys[of interval rs]
    by (simp add: sum_list_distinct_conv_sum_set set_bucket_keys)
  also have "\<dots> = length rs"
    unfolding members_def by (rule sum_members) simp_all
  finally show ?thesis .
qed

lemma summarise_fields:
  "b_timestamp (summarise impl cfg k recs) = k"
  "b_count (summarise impl cfg k recs) = length recs"
  "b_down_count (summarise impl cfg k recs) = length recs - up_count recs"
  "b_degraded_count (summarise impl cfg k recs) =
     length (filter (is_degraded (get_degraded_threshold cfg)) recs)"
  "b_is_up (summarise impl cfg k recs) = (b_status (summarise impl cfg k recs) = ''up'')"
  "b_response_time (summarise impl cfg k recs) = b_avg_response_time (summarise impl cfg k recs)"
  by (simp_all add: summarise_def Let_def)

lemma summarise_status:
  "b_status (summarise impl cfg k recs) =
     (if 0 < b_down_count (summarise impl cfg k recs) then ''down''
      else if get_degraded_percentage_threshold cfg < b_issue_percentage (summarise impl cfg k recs)
        then ''degraded''
      else ''up'')"
  by (simp add: summarise_def Let_def)




lemma aggregate_buckets_of:
  assumes "interval \<noteq> ''all''" "valid_records rs"
  shows "aggregate_heartbeat_data impl rs interval cfg =
    Inr (map Bucket (buckets_of impl cfg interval rs))"
  by (simp add: aggregate_valid[OF assms] buckets_of_def o_def)

lemma bucket_in:
  assumes "b \<in> set (buckets_of impl cfg interval rs)"
  shows "b = summarise impl cfg (b_timestamp b) (members interval rs (b_timestamp b))"
    and "b_timestamp b \<in> key_of interval ` set rs"
    and "members interval rs (b_timestamp b) \<noteq> []"
proof -
  from assms obtain k where k: "k \<in> set (bucket_keys interval rs)"
    "b = summarise impl cfg k (members interval rs k)"
    by (auto simp: buckets_of_def)
  then have kb: "b_timestamp b = k"
    by (simp add: summarise_fields)
  show "b = summarise impl cfg (b_timestamp b) (members interval rs (b_timestamp b))"
    using k(2) kb by simp
  show "b_timestamp b \<in> key_of interval ` set rs"
    using k(1) kb by (simp add: set_bucket_keys)
  show "members interval rs (b_timestamp b) \<noteq> []"
    using members_nonempty[OF k(1)] kb by simp
qed

subsection \<open>Status precedence\<close>


lemma ex_records_valid: "valid_records ex_records"
  by (simp add: valid_records_def ex_records_def mk_record_def mk_time_def valid_datetime_def
      days_in_month_def is_leap_def)


subsection \<open>Evaluated examples\<close>

text \<open>
  The scenario of the specification (two up checks in the 09:00 hour, one failed check in
  the 10:00 hour) and a bucket of two slow but successful checks.
\<close>

lemma ex_records_result:
  "aggregate_heartbeat_data Plain ex_records ''hour'' default_config =
     Inr [Bucket \<lparr> b_timestamp = ''2025-01-06T09:00:00'', b_is_up = True,
                    b_status = ''up'', b_response_time = Some (1 / 8), b_count = 2,
                    b_avg_response_time = Some (1 / 8), b_degraded_count = 0,
                    b_down_count = 0, b_issue_percentage = 0 \<rparr>,
          Bucket \<lparr> b_timestamp = ''2025-01-06T10:00:00'', b_is_up = False,
                    b_status = ''down'', b_response_time = None, b_count = 1,
                    b_avg_response_time = None, b_degraded_count = 0,
                    b_down_count = 1, b_issue_percentage = 100 \<rparr>]"
  by code_simp

lemma ex_slow_valid: "valid_records ex_slow"
  by (simp add: valid_records_def ex_slow_def mk_record_def mk_time_def valid_datetime_def
      days_in_month_def is_leap_def)

lemma ex_slow_result:
  "aggregate_heartbeat_data Plain ex_slow ''hour'' default_config =
     Inr [Bucket \<lparr> b_timestamp = ''2025-01-06T09:00:00'', b_is_up = False,
                    b_status = ''degraded'', b_response_time = Some (1 / 2), b_count = 2,
                    b_avg_response_time = Some (1 / 2), b_degraded_count = 2,
                    b_down_count = 0, b_issue_percentage = 100 \<rparr>]"
  by code_simp

subsection \<open>No record is lost\<close>

text \<open>
  Claim C4. At hour, day or week granularity the \<open>count\<close> fields of the emitted buckets
  add up to the number of input records.
\<close>

theorem counts_sum_to_length:
  assumes "interval \<in> {''hour'', ''day'', ''week''}" and "valid_records rs"
  shows "\<exists>bs. aggregate_heartbeat_data impl rs interval cfg = Inr (map Bucket bs) \<and>
     sum_list (map b_count bs) = length rs"
proof -
  from assms(1) have iv: "interval \<noteq> ''all''" by auto
  have "map b_count (buckets_of impl cfg interval rs) =
      map (\<lambda>k. length (members interval rs k)) (bucket_keys interval rs)"
    by (simp add: buckets_of_def summarise_fields o_def)
  then have "sum_list (map b_count (buckets_of impl cfg interval rs)) = length rs"
    by (simp only: sum_counts)
  with aggregate_buckets_of[OF iv assms(2), of impl cfg] show ?thesis
    by blast
qed

theorem counts_sum_to_length_witness:
  "''hour'' \<in> {''hour'', ''day'', ''week''} \<and> valid_records ex_records \<and>
   (\<exists>bs. aggregate_heartbeat_data Plain ex_records ''hour'' default_config = Inr (map Bucket bs) \<and>
      sum_list (map b_count bs) = length ex_records) \<and>
   length ex_records = 3"
proof -
  have h: "''hour'' \<in> {''hour'', ''day'', ''week''}" by simp
  have "length ex_records = 3" by (simp add: ex_records_def)
  with counts_sum_to_length[OF h ex_records_valid, of Plain default_config] h ex_records_valid
  show ?thesis by blast
qed

subsection \<open>The \<open>is_up\<close> field of a bucket\<close>

text \<open>
  Claim C9. At hour, day or week granularity the \<open>is_up\<close> field of every emitted bucket
  equals \<open>status == "up"\<close>. So a bucket classified \<open>degraded\<close> reports \<open>is_up\<close> false, also
  when every record in it is up, and \<open>is_up\<close> is true only for buckets classified \<open>up\<close>.
\<close>

theorem bucket_is_up_iff_status_up:
  assumes "interval \<in> {''hour'', ''day'', ''week''}" and "valid_records rs"
  shows "\<exists>bs. aggregate_heartbeat_data impl rs interval cfg = Inr (map Bucket bs) \<and>
     (\<forall>b \<in> set bs.
        b_is_up b = (b_status b = ''up'') \<and>
        (b_status b = ''degraded'' \<longrightarrow> \<not> b_is_up b) \<and>
        (b_is_up b \<longrightarrow> b_status b = ''up''))"
proof -
  from assms(1) have iv: "interval \<noteq> ''all''" by auto
  have "b_is_up b = (b_status b = ''up'')" if "b \<in> set (buckets_of impl cfg interval rs)" for b
    using summarise_fields(5) bucket_in(1)[OF that] by metis
  then have "\<forall>b \<in> set (buckets_of impl cfg interval rs).
        b_is_up b = (b_status b = ''up'') \<and>
        (b_status b = ''degraded'' \<longrightarrow> \<not> b_is_up b) \<and>
        (b_is_up b \<longrightarrow> b_status b = ''up'')"
    by simp
  with aggregate_buckets_of[OF iv assms(2), of impl cfg] show ?thesis
    by blast
qed

text \<open>Two up records that are both slow: the bucket is \<open>degraded\<close> and reports \<open>is_up\<close> false.\<close>

theorem bucket_is_up_iff_status_up_witness:
  "''hour'' \<in> {''hour'', ''day'', ''week''} \<and> valid_records ex_slow \<and>
   list_all is_up ex_slow \<and>
   (\<exists>bs. aggregate_heartbeat_data Plain ex_slow ''hour'' default_config = Inr (map Bucket bs) \<and>
     length bs = 1 \<and>
     (\<forall>b \<in> set bs.
        b_is_up b = (b_status b = ''up'') \<and>
        (b_status b = ''degraded'' \<longrightarrow> \<not> b_is_up b) \<and>
        (b_is_up b \<longrightarrow> b_status b = ''up'') \<and>
        b_status b = ''degraded'' \<and> \<not> b_is_up b))"
proof -
  have h: "''hour'' \<in> {''hour'', ''day'', ''week''}" by simp
  have up: "list_all is_up ex_slow"
    by (simp add: ex_slow_def mk_record_def)
  from bucket_is_up_iff_status_up[OF h ex_slow_valid, of Plain default_config]
  obtain bs where bs:
    "aggregate_heartbeat_data Plain ex_slow ''hour'' default_config = Inr (map Bucket bs)"
    "\<forall>b \<in> set bs. b_is_up b = (b_status b = ''up'') \<and>
        (b_status b = ''degraded'' \<longrightarrow> \<not> b_is_up b) \<and> (b_is_up b \<longrightarrow> b_status b = ''up'')"
    by blast
  from bs(1) have eq: "bs = [\<lparr> b_timestamp = ''2025-01-06T09:00:00'', b_is_up = False,
                    b_status = ''degraded'', b_response_time = Some (1 / 2), b_count = 2,
                    b_avg_response_time = Some (1 / 2), b_degraded_count = 2,
                    b_down_count = 0, b_issue_percentage = 100 \<rparr>]"
    unfolding ex_slow_result by (cases bs) auto
  have "length bs = 1" "\<forall>b \<in> set bs. b_status b = ''degraded'' \<and> \<not> b_is_up b"
    unfolding eq by simp_all
  with h ex_slow_valid up bs show ?thesis
    by blast
qed

section \<open>Order of \<open>isoformat\<close> strings\<close>

text \<open>Zero-padded decimal fields of equal width compare as the numbers they print.\<close>

lemma length_zpad [simp]: "length (zpad w n) = w"
  by (induction w arbitrary: n) simp_all

lemma append_less_iff:
  fixes xs ys :: "'a::linorder list"
  assumes "length xs = length ys"
  shows "xs @ us < ys @ vs \<longleftrightarrow> xs < ys \<or> xs = ys \<and> us < vs"
  using assms by (induction xs ys rule: list_induct2) auto

lemma of_char_digit_char: "of_char (digit_char n) = (48 + n mod 10 :: nat)"
proof -
  have "n mod 10 < 10" by simp
  then have "48 + n mod 10 < 256" by linarith
  then show ?thesis
    by (simp add: digit_char_def)
qed

lemma digit_char_less: "digit_char a < digit_char b \<longleftrightarrow> a mod 10 < b mod 10"
  by (simp add: less_char_def of_char_digit_char)

lemma digit_char_eq: "digit_char a = digit_char b \<longleftrightarrow> a mod 10 = b mod 10"
proof -
  have "digit_char a = digit_char b \<longleftrightarrow>
      (of_char (digit_char a) :: nat) = of_char (digit_char b)"
    by (simp only: of_char_eq_iff)
  then show ?thesis
    by (simp add: of_char_digit_char)
qed

lemma base10_less:
  fixes qa ra qb rb :: nat
  assumes "ra < 10" "rb < 10"
  shows "qa * 10 + ra < qb * 10 + rb \<longleftrightarrow> qa < qb \<or> qa = qb \<and> ra < rb"
  using assms by auto

lemma div_mod_less:
  fixes a b :: nat
  shows "a < b \<longleftrightarrow> a div 10 < b div 10 \<or> a div 10 = b div 10 \<and> a mod 10 < b mod 10"
  using base10_less[of "a mod 10" "b mod 10" "a div 10" "b div 10"] by simp

lemma div_mod_eq:
  fixes a b :: nat
  shows "a = b \<longleftrightarrow> a div 10 = b div 10 \<and> a mod 10 = b mod 10"
  by (metis div_mult_mod_eq)

lemma div10_less:
  fixes a :: nat
  assumes "a < 10 ^ Suc w"
  shows "a div 10 < 10 ^ w"
proof -
  from assms have "a < 10 ^ w * 10"
    by (simp add: ac_simps)
  then show ?thesis
    by (rule less_mult_imp_div_less)
qed

lemma zpad_eq:
  "a < 10 ^ w \<Longrightarrow> b < 10 ^ w \<Longrightarrow> zpad w a = zpad w b \<longleftrightarrow> a = b"
proof (induction w arbitrary: a b)
  case 0
  then show ?case by simp
next
  case (Suc w)
  from Suc.IH[OF div10_less[OF Suc.prems(1)] div10_less[OF Suc.prems(2)]] show ?case
    using div_mod_eq[of a b] by (simp add: digit_char_eq)
qed

lemma zpad_less:
  "a < 10 ^ w \<Longrightarrow> b < 10 ^ w \<Longrightarrow> zpad w a < zpad w b \<longleftrightarrow> a < b"
proof (induction w arbitrary: a b)
  case 0
  then show ?case by simp
next
  case (Suc w)
  note bd = div10_less[OF Suc.prems(1)] div10_less[OF Suc.prems(2)]
  show ?case
    using Suc.IH[OF bd] zpad_eq[OF bd] div_mod_less[of a b]
    by (simp add: append_less_iff digit_char_less)
qed

text \<open>
  For datetimes that Python can build, \<open>isoformat\<close> is injective and the order of the
  strings is the order of the datetimes.
\<close>

lemma days_in_month_le:
  assumes "1 \<le> m" "m \<le> 12"
  shows "days_in_month y m \<le> 31"
proof -
  from assms have "m = 1 \<or> m = 2 \<or> m = 3 \<or> m = 4 \<or> m = 5 \<or> m = 6 \<or> m = 7 \<or> m = 8 \<or> m = 9 \<or> m = 10
      \<or> m = 11 \<or> m = 12"
    by arith
  then show ?thesis
    by (elim disjE) (simp_all add: days_in_month_def)
qed

lemma valid_datetime_bounds:
  assumes "valid_datetime t"
  shows "year t < 10 ^ 4" "month t < 10 ^ 2" "day t < 10 ^ 2" "hour t < 10 ^ 2"
    "minute t < 10 ^ 2" "second t < 10 ^ 2" "microsecond t < 10 ^ 6"
proof -
  from assms have "day t \<le> 31"
    using days_in_month_le[of "month t" "year t"] by (simp add: valid_datetime_def)
  with assms show "year t < 10 ^ 4" "month t < 10 ^ 2" "day t < 10 ^ 2" "hour t < 10 ^ 2"
    "minute t < 10 ^ 2" "second t < 10 ^ 2" "microsecond t < 10 ^ 6"
    by (simp_all add: valid_datetime_def)
qed

lemma field_less:
  assumes "a < 10 ^ w" "b < 10 ^ w"
  shows "zpad w a @ c # us < zpad w b @ c # vs \<longleftrightarrow> a < b \<or> a = b \<and> us < vs"
  using zpad_less[OF assms] zpad_eq[OF assms] by (simp add: append_less_iff)

lemma field_eq:
  assumes "a < 10 ^ w" "b < 10 ^ w"
  shows "zpad w a @ c # us = zpad w b @ c # vs \<longleftrightarrow> a = b \<and> us = vs"
  using zpad_eq[OF assms] by simp

lemma last_field_less:
  assumes "a < 10 ^ w" "b < 10 ^ w" "u < 10 ^ 6" "v < 10 ^ 6"
  shows "zpad w a @ (if u = 0 then [] else ''.'' @ zpad 6 u)
       < zpad w b @ (if v = 0 then [] else ''.'' @ zpad 6 v)
     \<longleftrightarrow> a < b \<or> a = b \<and> u < v"
  using zpad_less[OF assms(1,2)] zpad_eq[OF assms(1,2)] zpad_less[OF assms(3,4)]
  by (simp add: append_less_iff)

lemma last_field_eq:
  assumes "a < 10 ^ w" "b < 10 ^ w" "u < 10 ^ 6" "v < 10 ^ 6"
  shows "zpad w a @ (if u = 0 then [] else ''.'' @ zpad 6 u)
       = zpad w b @ (if v = 0 then [] else ''.'' @ zpad 6 v)
     \<longleftrightarrow> a = b \<and> u = v"
  using zpad_eq[OF assms(1,2)] zpad_eq[OF assms(3,4)]
  by auto

lemma prod_less_iff:
  fixes x1 x2 :: "'a::linorder" and y1 y2 :: "'b::ord"
  shows "(x1, y1) < (x2, y2) \<longleftrightarrow> x1 < x2 \<or> x1 = x2 \<and> y1 < y2"
  by auto

lemma isoformat_fields:
  "isoformat t =
     zpad 4 (year t) @ CHR ''-'' # zpad 2 (month t) @ CHR ''-'' # zpad 2 (day t) @ CHR ''T'' #
     zpad 2 (hour t) @ CHR '':'' # zpad 2 (minute t) @ CHR '':'' # zpad 2 (second t) @
     (if microsecond t = 0 then [] else ''.'' @ zpad 6 (microsecond t))"
  by (simp add: isoformat_def)

lemma isoformat_less:
  assumes "valid_datetime a" "valid_datetime b"
  shows "isoformat a < isoformat b \<longleftrightarrow> dt_less a b"
proof -
  note ba = valid_datetime_bounds[OF assms(1)] and bb = valid_datetime_bounds[OF assms(2)]
  show ?thesis
    unfolding isoformat_fields dt_less_def dt_key_def prod_less_iff
      field_less[OF ba(1) bb(1)] field_less[OF ba(2) bb(2)] field_less[OF ba(3) bb(3)]
      field_less[OF ba(4) bb(4)] field_less[OF ba(5) bb(5)]
      last_field_less[OF ba(6) bb(6) ba(7) bb(7)]
    by (rule refl)
qed

lemma isoformat_inj:
  assumes "valid_datetime a" "valid_datetime b" "isoformat a = isoformat b"
  shows "a = b"
proof -
  note ba = valid_datetime_bounds[OF assms(1)] and bb = valid_datetime_bounds[OF assms(2)]
  from assms(3) have "year a = year b \<and> month a = month b \<and> day a = day b \<and> hour a = hour b \<and>
      minute a = minute b \<and> second a = second b \<and> microsecond a = microsecond b"
    unfolding isoformat_fields
      field_eq[OF ba(1) bb(1)] field_eq[OF ba(2) bb(2)] field_eq[OF ba(3) bb(3)]
      field_eq[OF ba(4) bb(4)] field_eq[OF ba(5) bb(5)]
      last_field_eq[OF ba(6) bb(6) ba(7) bb(7)] .
  then show ?thesis
    by simp
qed

section \<open>Bucket starts\<close>

lemma start_of_valid:
  assumes "valid_datetime t"
  shows "bucket_start interval t = Inr (start_of interval t)"
    and "valid_datetime (start_of interval t)"
proof -
  have "\<exists>s. bucket_start interval t = Inr s \<and> valid_datetime s"
  proof (cases "interval = ''week''")
    case True
    with week_start[OF assms] show ?thesis by blast
  next
    case False
    with assms show ?thesis
      by (auto simp: bucket_start_def valid_datetime_def)
  qed
  then show "bucket_start interval t = Inr (start_of interval t)"
    and "valid_datetime (start_of interval t)"
    by (auto simp: start_of_def)
qed

lemma valid_recordsD: "valid_records rs \<Longrightarrow> r \<in> set rs \<Longrightarrow> valid_datetime (timestamp r)"
  by (simp add: valid_records_def list_all_iff)

lemma key_of_eq_iff:
  assumes "valid_datetime (timestamp r)" "valid_datetime (timestamp r')"
  shows "key_of interval r = key_of interval r' \<longleftrightarrow>
    start_of interval (timestamp r) = start_of interval (timestamp r')"
  unfolding key_of_def
  using isoformat_inj[OF start_of_valid(2)[OF assms(1)] start_of_valid(2)[OF assms(2)]]
  by auto

lemma week_start_monday:
  assumes "valid_datetime t"
  shows "weekday (start_of ''week'' t) = 0"
    and "toordinal (start_of ''week'' t) \<le> toordinal t"
    and "toordinal t < toordinal (start_of ''week'' t) + 7"
    and "hour (start_of ''week'' t) = 0 \<and> minute (start_of ''week'' t) = 0 \<and>
         second (start_of ''week'' t) = 0 \<and> microsecond (start_of ''week'' t) = 0"
proof -
  from week_start[OF assms] obtain s where s: "bucket_start ''week'' t = Inr s"
    "toordinal s + weekday t = toordinal t"
    "hour s = 0 \<and> minute s = 0 \<and> second s = 0 \<and> microsecond s = 0"
    by blast
  then have eq: "start_of ''week'' t = s"
    by (simp add: start_of_def)
  define n where "n = toordinal t"
  define m where "m = toordinal s"
  have mn: "m + (n + 6) mod 7 = n"
    using s(2) by (simp add: weekday_def n_def m_def)
  have "(n + 6) mod 7 < 7" by simp
  with mn have "m \<le> n" "n < m + 7" by linarith+
  moreover have "(m + 6) mod 7 = 0"
  proof -
    have "n + 6 = 7 * ((n + 6) div 7) + (n + 6) mod 7"
      by simp
    with mn have "m + 6 = 7 * ((n + 6) div 7)"
      by linarith
    then show ?thesis
      by (simp only: mod_mult_self1_is_0)
  qed
  ultimately show "weekday (start_of ''week'' t) = 0"
    and "toordinal (start_of ''week'' t) \<le> toordinal t"
    and "toordinal t < toordinal (start_of ''week'' t) + 7"
    and "hour (start_of ''week'' t) = 0 \<and> minute (start_of ''week'' t) = 0 \<and>
         second (start_of ''week'' t) = 0 \<and> microsecond (start_of ''week'' t) = 0"
    using s(3) by (simp_all add: eq weekday_def n_def m_def)
qed

lemma bucket_starts_sorted:
  assumes "valid_records rs"
  shows "\<exists>starts. map isoformat starts = bucket_keys interval rs \<and>
    sorted_wrt dt_less starts \<and>
    set starts = (\<lambda>r. start_of interval (timestamp r)) ` set rs"
proof -
  let ?S = "(\<lambda>r. start_of interval (timestamp r)) ` set rs"
  let ?g = "inv_into ?S isoformat"
  let ?starts = "map ?g (bucket_keys interval rs)"
  have valid: "valid_datetime s" if "s \<in> ?S" for s
    using that start_of_valid(2) valid_recordsD[OF assms] by auto
  have inj: "inj_on isoformat ?S"
    by (rule inj_onI) (blast intro: isoformat_inj valid)
  have keys: "set (bucket_keys interval rs) = isoformat ` ?S"
    by (simp add: set_bucket_keys key_of_def image_image)
  have giso: "isoformat (?g k) = k" if "k \<in> set (bucket_keys interval rs)" for k
    using that unfolding keys by (rule f_inv_into_f)
  have m: "map isoformat ?starts = bucket_keys interval rs"
    by (simp add: o_def giso cong: map_cong)
  have st: "set ?starts = ?S"
    unfolding set_map keys image_image using inj by (simp add: image_image)
  have "sorted_wrt (<) (map isoformat ?starts)"
    unfolding m using sorted_bucket_keys[of interval rs] distinct_bucket_keys[of interval rs]
    by (simp add: strict_sorted_iff)
  then have "sorted_wrt (\<lambda>a b. isoformat a < isoformat b) ?starts"
    by (simp only: sorted_wrt_map)
  then have "sorted_wrt dt_less ?starts"
  proof (rule sorted_wrt_mono_rel[rotated])
    fix a b assume "a \<in> set ?starts" "b \<in> set ?starts" "isoformat a < isoformat b"
    then show "dt_less a b"
      using isoformat_less[of a b] valid unfolding st by blast
  qed
  with m st show ?thesis by blast
qed

subsection \<open>Truncation and output order\<close>

text \<open>
  Claim C2. At hour, day or week granularity every record is counted in the bucket whose
  start is its timestamp truncated: to the start of the hour, to the start of the calendar
  day, or to 00:00:00 of the most recent Monday (a Monday at most six days back). The
  timestamps of the emitted buckets are the \<open>isoformat\<close> strings of strictly ascending
  starts, whatever the order of the input.
\<close>

theorem truncation_and_order:
  assumes "interval \<in> {''hour'', ''day'', ''week''}" and "valid_records rs"
  shows "\<exists>bs. aggregate_heartbeat_data impl rs interval cfg = Inr (map Bucket bs) \<and>
     (\<exists>starts. map b_timestamp bs = map isoformat starts \<and> sorted_wrt dt_less starts \<and>
        (\<forall>s \<in> set starts. \<exists>r \<in> set rs. bucket_start interval (timestamp r) = Inr s)) \<and>
     (\<forall>r \<in> set rs. \<exists>s.
        bucket_start interval (timestamp r) = Inr s \<and>
        (\<exists>b \<in> set bs. b_timestamp b = isoformat s \<and>
           b_count b =
             length (filter (\<lambda>r'. bucket_start interval (timestamp r') = Inr s) rs)) \<and>
        (interval = ''hour'' \<longrightarrow>
           s = (timestamp r)\<lparr>minute := 0, second := 0, microsecond := 0\<rparr>) \<and>
        (interval = ''day'' \<longrightarrow>
           s = (timestamp r)\<lparr>hour := 0, minute := 0, second := 0, microsecond := 0\<rparr>) \<and>
        (interval = ''week'' \<longrightarrow>
           weekday s = 0 \<and> toordinal s \<le> toordinal (timestamp r) \<and>
           toordinal (timestamp r) < toordinal s + 7 \<and>
           hour s = 0 \<and> minute s = 0 \<and> second s = 0 \<and> microsecond s = 0))"
proof -
  from assms(1) have iv: "interval \<noteq> ''all''" by auto
  let ?bs = "buckets_of impl cfg interval rs"
  let ?st = "\<lambda>r. start_of interval (timestamp r)"
  have ok: "bucket_start interval (timestamp r) = Inr (?st r)" "valid_datetime (?st r)"
    if "r \<in> set rs" for r
    using start_of_valid[OF valid_recordsD[OF assms(2) that]] by simp_all
  have ts: "map b_timestamp ?bs = bucket_keys interval rs"
    by (simp add: buckets_of_def summarise_fields o_def)
  from bucket_starts_sorted[OF assms(2), of interval] obtain starts where starts:
    "map isoformat starts = bucket_keys interval rs" "sorted_wrt dt_less starts"
    "set starts = ?st ` set rs"
    by blast
  have part1: "\<exists>starts. map b_timestamp ?bs = map isoformat starts \<and> sorted_wrt dt_less starts \<and>
        (\<forall>s \<in> set starts. \<exists>r \<in> set rs. bucket_start interval (timestamp r) = Inr s)"
  proof (intro exI[of _ starts] conjI ballI)
    show "map b_timestamp ?bs = map isoformat starts"
      using ts starts(1) by simp
    show "sorted_wrt dt_less starts" by (rule starts(2))
    fix s assume "s \<in> set starts"
    then obtain r where "r \<in> set rs" "s = ?st r"
      unfolding starts(3) by blast
    with ok(1) show "\<exists>r \<in> set rs. bucket_start interval (timestamp r) = Inr s"
      by blast
  qed
  have part2: "\<exists>s. bucket_start interval (timestamp r) = Inr s \<and>
        (\<exists>b \<in> set ?bs. b_timestamp b = isoformat s \<and>
           b_count b =
             length (filter (\<lambda>r'. bucket_start interval (timestamp r') = Inr s) rs)) \<and>
        (interval = ''hour'' \<longrightarrow>
           s = (timestamp r)\<lparr>minute := 0, second := 0, microsecond := 0\<rparr>) \<and>
        (interval = ''day'' \<longrightarrow>
           s = (timestamp r)\<lparr>hour := 0, minute := 0, second := 0, microsecond := 0\<rparr>) \<and>
        (interval = ''week'' \<longrightarrow>
           weekday s = 0 \<and> toordinal s \<le> toordinal (timestamp r) \<and>
           toordinal (timestamp r) < toordinal s + 7 \<and>
           hour s = 0 \<and> minute s = 0 \<and> second s = 0 \<and> microsecond s = 0)"
    if r: "r \<in> set rs" for r
  proof -
    let ?s = "?st r" and ?k = "key_of interval r"
    have k: "?k \<in> set (bucket_keys interval rs)"
      using r by (simp add: set_bucket_keys)
    let ?b = "summarise impl cfg ?k (members interval rs ?k)"
    have b: "?b \<in> set ?bs"
      using k by (auto simp: buckets_of_def)
    have mem: "members interval rs ?k =
        filter (\<lambda>r'. bucket_start interval (timestamp r') = Inr ?s) rs"
      unfolding members_def
    proof (rule filter_cong[OF refl])
      fix r' assume r': "r' \<in> set rs"
      show "(key_of interval r' = ?k) = (bucket_start interval (timestamp r') = Inr ?s)"
        using key_of_eq_iff[OF valid_recordsD[OF assms(2) r'] valid_recordsD[OF assms(2) r],
            of interval] ok(1)[OF r']
        by auto
    qed
    have c1: "b_timestamp ?b = isoformat ?s"
      by (simp add: summarise_fields key_of_def)
    have c2: "b_count ?b =
        length (filter (\<lambda>r'. bucket_start interval (timestamp r') = Inr ?s) rs)"
      by (simp only: summarise_fields mem)
    note cnt = conjI[OF c1 c2]
    have h: "interval = ''hour'' \<longrightarrow>
        ?s = (timestamp r)\<lparr>minute := 0, second := 0, microsecond := 0\<rparr>"
      by (simp add: start_of_def bucket_start_def)
    have d: "interval = ''day'' \<longrightarrow>
        ?s = (timestamp r)\<lparr>hour := 0, minute := 0, second := 0, microsecond := 0\<rparr>"
      by (simp add: start_of_def bucket_start_def)
    have w: "interval = ''week'' \<longrightarrow>
           weekday ?s = 0 \<and> toordinal ?s \<le> toordinal (timestamp r) \<and>
           toordinal (timestamp r) < toordinal ?s + 7 \<and>
           hour ?s = 0 \<and> minute ?s = 0 \<and> second ?s = 0 \<and> microsecond ?s = 0"
      using week_start_monday[OF valid_recordsD[OF assms(2) r]] by (intro impI) simp
    from ok(1)[OF r] b cnt h d w show ?thesis
      by blast
  qed
  from aggregate_buckets_of[OF iv assms(2), of impl cfg] part1 part2 show ?thesis
    by blast
qed

lemma ex_week_valid: "valid_records ex_week"
  by (simp add: valid_records_def ex_week_def mk_record_def mk_time_def valid_datetime_def
      days_in_month_def is_leap_def)

lemma week_example:
  "bucket_start ''week'' (mk_time 2025 1 1 9 30) = Inr (mk_time 2024 12 30 0 0)"
proof -
  have wd: "weekday (mk_time 2025 1 1 9 30) = Suc (Suc 0)"
    by (simp add: weekday_def toordinal_def days_before_year_def days_before_month_def
        is_leap_def mk_time_def)
  have sd: "sub_days (mk_time 2025 1 1 9 30) (Suc (Suc 0)) = Inr (mk_time 2024 12 30 9 30)"
    by (simp add: prev_day_def mk_time_def days_in_month_def)
  show ?thesis
    unfolding bucket_start_def wd sd by (simp add: mk_time_def)
qed

text \<open>Three records given out of order; Wednesday 2025-01-01 belongs to the week that starts
  on Monday 2024-12-30.\<close>

theorem truncation_and_order_witness:
  "''week'' \<in> {''hour'', ''day'', ''week''} \<and> valid_records ex_week \<and>
   (\<exists>bs. aggregate_heartbeat_data Plain ex_week ''week'' default_config = Inr (map Bucket bs) \<and>
     (\<exists>starts. map b_timestamp bs = map isoformat starts \<and> sorted_wrt dt_less starts \<and>
        (\<forall>s \<in> set starts. \<exists>r \<in> set ex_week. bucket_start ''week'' (timestamp r) = Inr s)) \<and>
     (\<forall>r \<in> set ex_week. \<exists>s.
        bucket_start ''week'' (timestamp r) = Inr s \<and>
        (\<exists>b \<in> set bs. b_timestamp b = isoformat s \<and>
           b_count b =
             length (filter (\<lambda>r'. bucket_start ''week'' (timestamp r') = Inr s) ex_week)) \<and>
        (''week'' = ''hour'' \<longrightarrow>
           s = (timestamp r)\<lparr>minute := 0, second := 0, microsecond := 0\<rparr>) \<and>
        (''week'' = ''day'' \<longrightarrow>
           s = (timestamp r)\<lparr>hour := 0, minute := 0, second := 0, microsecond := 0\<rparr>) \<and>
        (''week'' = ''week'' \<longrightarrow>
           weekday s = 0 \<and> toordinal s \<le> toordinal (timestamp r) \<and>
           toordinal (timestamp r) < toordinal s + 7 \<and>
           hour s = 0 \<and> minute s = 0 \<and> second s = 0 \<and> microsecond s = 0))) \<and>
   bucket_start ''week'' (mk_time 2025 1 1 9 30) = Inr (mk_time 2024 12 30 0 0)"
proof -
  have h: "''week'' \<in> {''hour'', ''day'', ''week''}" by simp
  note t = truncation_and_order[OF h ex_week_valid, of Plain default_config]
  show ?thesis
    by (intro conjI h ex_week_valid t week_example)
qed

subsection \<open>Unknown interval strings\<close>

text \<open>
  Claim C10. For an interval string other than \<open>all\<close>, \<open>hour\<close>, \<open>day\<close> and \<open>week\<close> the call
  does not fail. The start of a record is its timestamp as it is, so the bucket of a record
  has the \<open>isoformat\<close> of that exact timestamp and counts the records with an identical
  timestamp. Every bucket carries the status of the threshold classification (and
  \<open>is_up\<close> derived from it), which interval \<open>all\<close> does not compute.
\<close>

theorem unknown_interval_groups_by_timestamp:
  assumes "interval \<notin> {''all'', ''hour'', ''day'', ''week''}" and "valid_records rs"
  shows "\<exists>bs. aggregate_heartbeat_data impl rs interval cfg = Inr (map Bucket bs) \<and>
     (\<forall>r \<in> set rs.
        bucket_start interval (timestamp r) = Inr (timestamp r) \<and>
        (\<exists>b \<in> set bs. b_timestamp b = isoformat (timestamp r) \<and>
           b_count b = length (filter (\<lambda>r'. timestamp r' = timestamp r) rs))) \<and>
     (\<forall>b \<in> set bs.
        b_status b =
          (if 0 < b_down_count b then ''down''
           else if get_degraded_percentage_threshold cfg < b_issue_percentage b then ''degraded''
           else ''up'') \<and>
        b_is_up b = (b_status b = ''up''))"
proof -
  from assms(1) have iv: "interval \<noteq> ''all''" by auto
  let ?bs = "buckets_of impl cfg interval rs"
  have st: "start_of interval t = t" "bucket_start interval t = Inr t" for t
    using assms(1) by (simp_all add: start_of_def bucket_start_def)
  have part1: "bucket_start interval (timestamp r) = Inr (timestamp r) \<and>
        (\<exists>b \<in> set ?bs. b_timestamp b = isoformat (timestamp r) \<and>
           b_count b = length (filter (\<lambda>r'. timestamp r' = timestamp r) rs))"
    if r: "r \<in> set rs" for r
  proof -
    let ?k = "key_of interval r"
    let ?b = "summarise impl cfg ?k (members interval rs ?k)"
    have "?k \<in> set (bucket_keys interval rs)"
      using r by (simp add: set_bucket_keys)
    then have b: "?b \<in> set ?bs"
      by (auto simp: buckets_of_def)
    have mem: "members interval rs ?k = filter (\<lambda>r'. timestamp r' = timestamp r) rs"
      unfolding members_def
    proof (rule filter_cong[OF refl])
      fix r' assume r': "r' \<in> set rs"
      show "(key_of interval r' = ?k) = (timestamp r' = timestamp r)"
        using key_of_eq_iff[OF valid_recordsD[OF assms(2) r'] valid_recordsD[OF assms(2) r],
            of interval]
        by (simp add: st)
    qed
    have c1: "b_timestamp ?b = isoformat (timestamp r)"
      by (simp add: summarise_fields key_of_def st)
    have c2: "b_count ?b = length (filter (\<lambda>r'. timestamp r' = timestamp r) rs)"
      by (simp only: summarise_fields mem)
    from st(2) b c1 c2 show ?thesis by blast
  qed
  have part2: "b_status b =
          (if 0 < b_down_count b then ''down''
           else if get_degraded_percentage_threshold cfg < b_issue_percentage b then ''degraded''
           else ''up'') \<and>
        b_is_up b = (b_status b = ''up'')"
    if b: "b \<in> set ?bs" for b
    using summarise_status[of impl cfg "b_timestamp b" "members interval rs (b_timestamp b)"]
      summarise_fields(5)[of impl cfg "b_timestamp b" "members interval rs (b_timestamp b)"]
      bucket_in(1)[OF b]
    by simp
  from aggregate_buckets_of[OF iv assms(2), of impl cfg] part1 part2 show ?thesis
    by blast
qed

lemma ex_same_valid: "valid_records ex_same"
  by (simp add: valid_records_def ex_same_def mk_record_def mk_time_def valid_datetime_def
      days_in_month_def is_leap_def)

lemma ex_same_result:
  "aggregate_heartbeat_data Plain ex_same ''month'' default_config =
     Inr [Bucket \<lparr> b_timestamp = ''2025-01-06T09:00:00'', b_is_up = True,
                    b_status = ''up'', b_response_time = Some (1 / 8), b_count = 1,
                    b_avg_response_time = Some (1 / 8), b_degraded_count = 0,
                    b_down_count = 0, b_issue_percentage = 0 \<rparr>,
          Bucket \<lparr> b_timestamp = ''2025-01-06T09:00:00.000005'', b_is_up = False,
                    b_status = ''down'', b_response_time = Some (1 / 2), b_count = 2,
                    b_avg_response_time = Some (1 / 2), b_degraded_count = 1,
                    b_down_count = 1, b_issue_percentage = 100 \<rparr>]"
  by code_simp

text \<open>
  With the unknown interval \<open>month\<close>, the two records stamped 09:00:00.000005 share a
  bucket and the record stamped 09:00:00 is alone in its own.
\<close>

theorem unknown_interval_groups_by_timestamp_witness:
  "''month'' \<notin> {''all'', ''hour'', ''day'', ''week''} \<and> valid_records ex_same \<and>
   (\<exists>bs. aggregate_heartbeat_data Plain ex_same ''month'' default_config = Inr (map Bucket bs) \<and>
     (\<forall>r \<in> set ex_same.
        bucket_start ''month'' (timestamp r) = Inr (timestamp r) \<and>
        (\<exists>b \<in> set bs. b_timestamp b = isoformat (timestamp r) \<and>
           b_count b = length (filter (\<lambda>r'. timestamp r' = timestamp r) ex_same))) \<and>
     (\<forall>b \<in> set bs.
        b_status b =
          (if 0 < b_down_count b then ''down''
           else if get_degraded_percentage_threshold default_config < b_issue_percentage b
             then ''degraded''
           else ''up'') \<and>
        b_is_up b = (b_status b = ''up''))) \<and>
   aggregate_heartbeat_data Plain ex_same ''month'' default_config =
     Inr [Bucket \<lparr> b_timestamp = ''2025-01-06T09:00:00'', b_is_up = True,
                    b_status = ''up'', b_response_time = Some (1 / 8), b_count = 1,
                    b_avg_response_time = Some (1 / 8), b_degraded_count = 0,
                    b_down_count = 0, b_issue_percentage = 0 \<rparr>,
          Bucket \<lparr> b_timestamp = ''2025-01-06T09:00:00.000005'', b_is_up = False,
                    b_status = ''down'', b_response_time = Some (1 / 2), b_count = 2,
                    b_avg_response_time = Some (1 / 2), b_degraded_count = 1,
                    b_down_count = 1, b_issue_percentage = 100 \<rparr>]"
proof -
  have h: "''month'' \<notin> {''all'', ''hour'', ''day'', ''week''}" by simp
  note t = unknown_interval_groups_by_timestamp[OF h ex_same_valid, of Plain default_config]
  show ?thesis
    by (intro conjI h ex_same_valid t ex_same_result)
qed

section \<open>Rounding\<close>









subsection \<open>Bucket invariants\<close>


lemma map_filter_empty_iff:
  "List.map_filter f xs = [] \<longleftrightarrow> (\<forall>x \<in> set xs. f x = None)"
  by (simp add: List.map_filter_def filter_empty_conv)




subsection \<open>Order of the input\<close>

lemma ex_order_results:
  "aggregate_heartbeat_data Plain ex_order_a ''hour'' default_config =
     Inr [Bucket \<lparr> b_timestamp = ''2025-01-06T09:00:00'', b_is_up = False,
                    b_status = ''degraded'', b_response_time = Some (2251799813685248), b_count = 4,
                    b_avg_response_time = Some (2251799813685248), b_degraded_count = 2,
                    b_down_count = 0, b_issue_percentage = 50 \<rparr>]"
  "aggregate_heartbeat_data Plain ex_order_b ''hour'' default_config =
     Inr [Bucket \<lparr> b_timestamp = ''2025-01-06T09:00:00'', b_is_up = False,
                    b_status = ''degraded'', b_response_time = Some (4503599627370497 / 2), b_count = 4,
                    b_avg_response_time = Some (4503599627370497 / 2), b_degraded_count = 2,
                    b_down_count = 0, b_issue_percentage = 50 \<rparr>]"
  "aggregate_heartbeat_data Compensated ex_order_a ''hour'' default_config =
     Inr [Bucket \<lparr> b_timestamp = ''2025-01-06T09:00:00'', b_is_up = False,
                    b_status = ''degraded'', b_response_time = Some (2251799813685248), b_count = 4,
                    b_avg_response_time = Some (2251799813685248), b_degraded_count = 2,
                    b_down_count = 0, b_issue_percentage = 50 \<rparr>]"
  "aggregate_heartbeat_data Compensated ex_order_b ''hour'' default_config =
     Inr [Bucket \<lparr> b_timestamp = ''2025-01-06T09:00:00'', b_is_up = False,
                    b_status = ''degraded'', b_response_time = Some (4503599627370497 / 2), b_count = 4,
                    b_avg_response_time = Some (4503599627370497 / 2), b_degraded_count = 2,
                    b_down_count = 0, b_issue_percentage = 50 \<rparr>]"
  by code_simp+

text \<open>
  Claim C7, as stated, fails. \<open>ex_order_b\<close> is \<open>ex_order_a\<close> reversed; both hold the same four
  records of one hour. Summed in the first order the response times give \<open>2 ^ 53\<close>, in the
  second \<open>2 ^ 53 + 2\<close>, with the left-to-right sum and with the compensated sum alike, so
  \<open>avg_response_time\<close> is 2251799813685248 for one order and 2251799813685248.5 for the
  other.
\<close>

theorem permuted_input_changes_mean:
  "ex_order_b = rev ex_order_a \<and>
   aggregate_heartbeat_data Plain ex_order_a ''hour'' default_config =
     Inr [Bucket \<lparr> b_timestamp = ''2025-01-06T09:00:00'', b_is_up = False,
                    b_status = ''degraded'', b_response_time = Some (2251799813685248), b_count = 4,
                    b_avg_response_time = Some (2251799813685248), b_degraded_count = 2,
                    b_down_count = 0, b_issue_percentage = 50 \<rparr>] \<and>
   aggregate_heartbeat_data Plain ex_order_b ''hour'' default_config =
     Inr [Bucket \<lparr> b_timestamp = ''2025-01-06T09:00:00'', b_is_up = False,
                    b_status = ''degraded'', b_response_time = Some (4503599627370497 / 2), b_count = 4,
                    b_avg_response_time = Some (4503599627370497 / 2), b_degraded_count = 2,
                    b_down_count = 0, b_issue_percentage = 50 \<rparr>] \<and>
   aggregate_heartbeat_data Compensated ex_order_a ''hour'' default_config =
     Inr [Bucket \<lparr> b_timestamp = ''2025-01-06T09:00:00'', b_is_up = False,
                    b_status = ''degraded'', b_response_time = Some (2251799813685248), b_count = 4,
                    b_avg_response_time = Some (2251799813685248), b_degraded_count = 2,
                    b_down_count = 0, b_issue_percentage = 50 \<rparr>] \<and>
   aggregate_heartbeat_data Compensated ex_order_b ''hour'' default_config =
     Inr [Bucket \<lparr> b_timestamp = ''2025-01-06T09:00:00'', b_is_up = False,
                    b_status = ''degraded'', b_response_time = Some (4503599627370497 / 2), b_count = 4,
                    b_avg_response_time = Some (4503599627370497 / 2), b_degraded_count = 2,
                    b_down_count = 0, b_issue_percentage = 50 \<rparr>] \<and>
   aggregate_heartbeat_data Plain ex_order_a ''hour'' default_config \<noteq>
     aggregate_heartbeat_data Plain ex_order_b ''hour'' default_config \<and>
   aggregate_heartbeat_data Compensated ex_order_a ''hour'' default_config \<noteq>
     aggregate_heartbeat_data Compensated ex_order_b ''hour'' default_config"
proof -
  have r: "ex_order_b = rev ex_order_a"
    by (simp add: ex_order_a_def ex_order_b_def)
  have ne: "(2251799813685248 :: rat) \<noteq> 4503599627370497 / 2"
    by simp
  have n1: "aggregate_heartbeat_data Plain ex_order_a ''hour'' default_config \<noteq>
     aggregate_heartbeat_data Plain ex_order_b ''hour'' default_config"
    unfolding ex_order_results using ne by simp
  have n2: "aggregate_heartbeat_data Compensated ex_order_a ''hour'' default_config \<noteq>
     aggregate_heartbeat_data Compensated ex_order_b ''hour'' default_config"
    unfolding ex_order_results using ne by simp
  show ?thesis
    by (intro conjI r ex_order_results n1 n2)
qed

lemma length_filter_perm:
  "mset xs = mset ys \<Longrightarrow> length (filter P xs) = length (filter P ys)"
  by (metis mset_filter size_mset)

lemma summarise_perm:
  assumes "mset xs = mset ys"
  shows "same_but_mean (summarise impl cfg k xs) (summarise impl cfg k ys)"
proof -
  have len: "length xs = length ys"
    using assms by (rule mset_eq_length)
  have up: "up_count xs = up_count ys"
    unfolding up_count_def by (rule length_filter_perm[OF assms])
  have deg: "length (filter (is_degraded (get_degraded_threshold cfg)) xs) =
      length (filter (is_degraded (get_degraded_threshold cfg)) ys)"
    by (rule length_filter_perm[OF assms])
  have nil: "(xs = []) = (ys = [])"
    using len by auto
  have pres: "(List.map_filter response_time xs = []) = (List.map_filter response_time ys = [])"
    unfolding map_filter_empty_iff using mset_eq_setD[OF assms] by simp
  show ?thesis
    unfolding same_but_mean_def summarise_def Let_def
    by (simp add: len up deg nil pres)
qed

text \<open>
  Claim C7, amended. For two orders of the same records, at hour, day or week granularity,
  the two results list the same buckets in the same order: timestamp, \<open>is_up\<close>, status,
  count, \<open>degraded_count\<close>, \<open>down_count\<close> and \<open>issue_percentage\<close> are equal, and the mean
  response time is present in one exactly when it is present in the other. Each bucket
  groups a permutation of the same records; the value of the mean is their float sum in
  input order, divided by their number.
\<close>

theorem permuted_input_same_buckets_but_mean:
  assumes "interval \<in> {''hour'', ''day'', ''week''}" and "valid_records rs"
    and "mset rs = mset rs'"
  shows "\<exists>bs bs'.
     aggregate_heartbeat_data impl rs interval cfg = Inr (map Bucket bs) \<and>
     aggregate_heartbeat_data impl rs' interval cfg = Inr (map Bucket bs') \<and>
     list_all2 same_but_mean bs bs' \<and>
     (\<forall>k. mset (members interval rs k) = mset (members interval rs' k))"
proof -
  from assms(1) have iv: "interval \<noteq> ''all''" by auto
  have set_eq: "set rs = set rs'"
    using assms(3) by (rule mset_eq_setD)
  then have valid': "valid_records rs'"
    using assms(2) by (simp add: valid_records_def list_all_iff)
  have keys: "bucket_keys interval rs = bucket_keys interval rs'"
    by (simp add: bucket_keys_def set_eq)
  have mem: "mset (members interval rs k) = mset (members interval rs' k)" for k
    by (simp add: members_def assms(3))
  have "list_all2 same_but_mean (buckets_of impl cfg interval rs)
      (buckets_of impl cfg interval rs')"
    unfolding buckets_of_def keys
    by (simp add: list_all2_map1 list_all2_map2 list_all2_same summarise_perm[OF mem])
  with aggregate_buckets_of[OF iv assms(2), of impl cfg]
    aggregate_buckets_of[OF iv valid', of impl cfg] mem
  show ?thesis by blast
qed

theorem permuted_input_same_buckets_but_mean_witness:
  "''hour'' \<in> {''hour'', ''day'', ''week''} \<and> valid_records ex_order_a \<and>
   mset ex_order_a = mset ex_order_b \<and>
   (\<exists>bs bs'.
     aggregate_heartbeat_data Plain ex_order_a ''hour'' default_config = Inr (map Bucket bs) \<and>
     aggregate_heartbeat_data Plain ex_order_b ''hour'' default_config = Inr (map Bucket bs') \<and>
     list_all2 same_but_mean bs bs' \<and>
     (\<forall>k. mset (members ''hour'' ex_order_a k) = mset (members ''hour'' ex_order_b k)))"
proof -
  have h: "''hour'' \<in> {''hour'', ''day'', ''week''}" by simp
  have v: "valid_records ex_order_a"
    by (simp add: valid_records_def ex_order_a_def mk_record_def mk_time_def valid_datetime_def
        days_in_month_def is_leap_def)
  have r: "ex_order_b = rev ex_order_a"
    by (simp add: ex_order_a_def ex_order_b_def)
  have m: "mset ex_order_a = mset ex_order_b"
    unfolding r by (simp only: mset_rev)
  note t = permuted_input_same_buckets_but_mean[OF h v m, of Plain default_config]
  show ?thesis
    by (intro conjI h v m t)
qed

section \<open>Properties of the status endpoints\<close>









end
